theory Spec2Isabelle
  imports Complex_Main "HOL-Library.Char_ord" "HOL-Library.List_Lexorder"
begin

section \<open>Python text primitives\<close>

text \<open>
  A Python \<open>str\<close> is modelled as a \<open>string\<close> whose elements stand for code points
  (the range below 256), so \<open>length\<close> is Python's \<open>len\<close>.
  Exceptions are values of the type \<open>error\<close>; a function that can raise returns
  \<open>error + 'a\<close>.
\<close>

datatype error =
    ValueError string
  | TypeError
  | NameError string
  | IndexError
  | AttributeError
  | OverflowError
  | GithubException
  | ZeroDivisionError
  | Exception string

definition newline :: char where
  "newline = CHR 0x0A"

text \<open>
  \<open>str.isspace\<close> on the code points below 256; the regular expression class
  \<open>\s\<close> and \<open>str.strip()\<close> both use it.
\<close>

definition is_space :: "char \<Rightarrow> bool" where
  "is_space c =
     (let n = (of_char c :: nat)
      in (9 \<le> n \<and> n \<le> 13) \<or> (28 \<le> n \<and> n \<le> 32) \<or> n = 133 \<or> n = 160)"

text \<open>
  The class \<open>\w\<close> of \<open>re\<close> on \<open>str\<close> patterns: the underscore and every code point
  for which \<open>str.isalnum\<close> holds (ASCII letters and digits, and in the range
  128 to 255 the letters, superscript digits and vulgar fractions of Latin-1).
\<close>

definition is_word :: "char \<Rightarrow> bool" where
  "is_word c =
     (let n = (of_char c :: nat)
      in (48 \<le> n \<and> n \<le> 57) \<or> (65 \<le> n \<and> n \<le> 90) \<or> n = 95 \<or> (97 \<le> n \<and> n \<le> 122)
         \<or> n = 170 \<or> n = 178 \<or> n = 179 \<or> n = 181 \<or> n = 185 \<or> n = 186
         \<or> (188 \<le> n \<and> n \<le> 190) \<or> (192 \<le> n \<and> n \<le> 214)
         \<or> (216 \<le> n \<and> n \<le> 246) \<or> (248 \<le> n \<and> n \<le> 255))"

text \<open>\<open>s.split(sep)\<close> for a one-character separator: never the empty list.\<close>

fun py_split :: "char \<Rightarrow> string \<Rightarrow> string list" where
  "py_split sep [] = [[]]"
| "py_split sep (c # cs) =
     (if c = sep then [] # py_split sep cs
      else (case py_split sep cs of
              [] \<Rightarrow> [[c]]
            | l # ls \<Rightarrow> (c # l) # ls))"

text \<open>\<open>sep.join(xs)\<close>.\<close>

fun py_join :: "string \<Rightarrow> string list \<Rightarrow> string" where
  "py_join sep [] = []"
| "py_join sep [x] = x"
| "py_join sep (x # y # ys) = x @ sep @ py_join sep (y # ys)"

text \<open>\<open>s.strip()\<close>: leading and trailing whitespace removed.\<close>

definition py_strip :: "string \<Rightarrow> string" where
  "py_strip s = rev (dropWhile is_space (rev (dropWhile is_space s)))"

text \<open>\<open>s.rfind(c)\<close>: the highest index of \<open>c\<close> in \<open>s\<close>, or \<open>-1\<close>.\<close>

fun rfind_rev :: "char \<Rightarrow> string \<Rightarrow> int" where
  "rfind_rev c [] = - 1"
| "rfind_rev c (x # xs) = (if x = c then int (length xs) else rfind_rev c xs)"

definition py_rfind :: "string \<Rightarrow> char \<Rightarrow> int" where
  "py_rfind s c = rfind_rev c (rev s)"

text \<open>\<open>str(n)\<close> for a natural number: its decimal digits.\<close>

definition digit_char :: "nat \<Rightarrow> char" where
  "digit_char d = char_of (48 + d)"

fun str_nat :: "nat \<Rightarrow> string" where
  "str_nat n = (if n < 10 then [digit_char n] else str_nat (n div 10) @ [digit_char (n mod 10)])"

declare str_nat.simps [simp del]

definition str_int :: "int \<Rightarrow> string" where
  "str_int i = (if i < 0 then CHR ''-'' # str_nat (nat (- i)) else str_nat (nat i))"

text \<open>
  \<open>str.splitlines()\<close>: the text is cut at every line boundary (\<open>\n\<close>, \<open>\r\<close>,
  \<open>\r\n\<close>, \<open>\v\<close>, \<open>\f\<close>, \<open>\x1c\<close>, \<open>\x1d\<close>, \<open>\x1e\<close>, \<open>\x85\<close>), the
  boundaries are dropped, and a boundary at the very end opens no further line.
  \<open>cur\<close> is the line being read, reversed.
\<close>

definition is_linebreak :: "char \<Rightarrow> bool" where
  "is_linebreak c =
     (let n = (of_char c :: nat)
      in (10 \<le> n \<and> n \<le> 13) \<or> (28 \<le> n \<and> n \<le> 30) \<or> n = 133)"

fun splitlines_from :: "string \<Rightarrow> string \<Rightarrow> string list" where
  "splitlines_from cur [] = (if cur = [] then [] else [rev cur])"
| "splitlines_from cur [c] =
     (if is_linebreak c then [rev cur] else [rev (c # cur)])"
| "splitlines_from cur (c # d # cs) =
     (if c = CHR 0x0D \<and> d = CHR 0x0A then rev cur # splitlines_from [] cs
      else if is_linebreak c then rev cur # splitlines_from [] (d # cs)
      else splitlines_from (c # cur) (d # cs))"

definition splitlines :: "string \<Rightarrow> string list" where
  "splitlines s = splitlines_from [] s"

section \<open>Prompt truncation (context\_script.py, get\_llm\_response)\<close>

definition max_tokens :: nat where
  "max_tokens = 120000"

text \<open>Lines 72 to 92 of \<open>get_llm_response\<close>: the prompt that is sent on.\<close>

definition truncate_prompt :: "string \<Rightarrow> string" where
  "truncate_prompt prompt =
     (let estimated_tokens = length prompt div 4 in
      if estimated_tokens > max_tokens then
        (let truncated_prompt = take (max_tokens * 4) prompt;
             last_period = py_rfind truncated_prompt (CHR ''.'')
         in if last_period \<noteq> - 1
            then take (nat (last_period + 1)) truncated_prompt
            else truncated_prompt)
      else prompt)"

section \<open>Outline extraction (codebase\_analyzer.py, function\_class\_localization)\<close>

text \<open>
  \<open>re.match(r'^(class\s+\w+.*?:)', line)\<close> and \<open>re.match(r'^(def\s+\w+.*?:)', line)\<close>,
  with the keyword as a parameter; the result is \<open>group(1)\<close>, or \<open>None\<close>.
  The keyword is read first, then the longest run of whitespace (\<open>\s+\<close>), then the
  longest run of word characters (\<open>\w+\<close>); both runs must be non-empty, and giving a
  character back never helps, since no character is in both classes. The lazy
  \<open>.*?\<close> then reads up to the first colon and cannot pass a newline.
\<close>

definition header_match :: "string \<Rightarrow> string \<Rightarrow> string option" where
  "header_match keyword line =
     (if take (length keyword) line \<noteq> keyword then None
      else
        (let after_keyword = drop (length keyword) line;
             spaces = takeWhile is_space after_keyword;
             after_spaces = dropWhile is_space after_keyword;
             ident = takeWhile is_word after_spaces;
             after_ident = dropWhile is_word after_spaces;
             lazy = takeWhile (\<lambda>c. c \<noteq> CHR '':'') after_ident
         in if spaces = [] \<or> ident = [] then None
            else if CHR '':'' \<in> set after_ident \<and> newline \<notin> set lazy
            then Some (keyword @ spaces @ ident @ lazy @ '':'')
            else None))"

definition class_match :: "string \<Rightarrow> string option" where
  "class_match line = header_match ''class'' line"

definition func_match :: "string \<Rightarrow> string option" where
  "func_match line = header_match ''def'' line"

text \<open>\<open>re.match(r'^@\w+', line)\<close>, used as a truth value.\<close>

fun decorator_match :: "string \<Rightarrow> bool" where
  "decorator_match (c # d # cs) = (c = CHR ''@'' \<and> is_word d)"
| "decorator_match cs = False"

text \<open>
  The state of the loop over the lines: the list \<open>compressed\<close> and the two flags.
\<close>

record outline_state =
  compressed :: "string list"
  in_class :: bool
  in_function :: bool

definition process_line :: "outline_state \<Rightarrow> string \<Rightarrow> outline_state" where
  "process_line st line =
     (if decorator_match line
      then st\<lparr>compressed := compressed st @ [py_strip line]\<rparr>
      else
        (case class_match line of
           Some g \<Rightarrow> st\<lparr>compressed := compressed st @ [g], in_class := True\<rparr>
         | None \<Rightarrow>
             (case func_match line of
                Some g \<Rightarrow> st\<lparr>compressed := compressed st @ [g], in_function := True\<rparr>
              | None \<Rightarrow>
                  if in_class st \<and> py_strip line = [] then st\<lparr>in_class := False\<rparr>
                  else if in_function st \<and> py_strip line = [] then st\<lparr>in_function := False\<rparr>
                  else st)))"

definition initial_state :: outline_state where
  "initial_state = \<lparr>compressed = [], in_class = False, in_function = False\<rparr>"

text \<open>The lines appended to \<open>compressed\<close> for one file, in order.\<close>

definition compressed_lines :: "string \<Rightarrow> string list" where
  "compressed_lines file_content =
     compressed (foldl process_line initial_state (py_split newline file_content))"

text \<open>The value stored in \<open>compressed_files[file_path]\<close>.\<close>

definition compress :: "string \<Rightarrow> string" where
  "compress file_content = py_join [newline] (compressed_lines file_content)"

text \<open>
  The outline as the specification words it, with no flags: a line is kept when it is a
  decorator line (stripped, as the code appends it) or when a class or function header is
  captured on it, and dropped otherwise.
\<close>

definition outline_of_line :: "string \<Rightarrow> string option" where
  "outline_of_line line =
     (if decorator_match line then Some (py_strip line)
      else (case class_match line of
              Some g \<Rightarrow> Some g
            | None \<Rightarrow> func_match line))"

definition flag_free_outline :: "string \<Rightarrow> string" where
  "flag_free_outline file_content =
     py_join [newline] (List.map_filter outline_of_line (py_split newline file_content))"

text \<open>What the outline may contain: the three kinds of line.\<close>

definition is_outline_line :: "string \<Rightarrow> bool" where
  "is_outline_line l = (decorator_match l \<or> class_match l \<noteq> None \<or> func_match l \<noteq> None)"

section \<open>Line-numbered excerpts (codebase\_analyzer.py, get\_code\_with\_lines)\<close>

text \<open>
  What \<open>repo.get_contents(path, ref)\<close> returns for a file: its \<open>type\<close>, \<open>name\<close>,
  \<open>path\<close>, and the text \<open>decoded_content.decode('utf-8')\<close> (\<open>None\<close> when decoding
  raises). For a directory it returns a list, which has no attribute \<open>type\<close>.
\<close>

record content_file =
  content_type :: string
  content_name :: string
  content_path :: string
  decoded_content :: "string option"

datatype fetched = OneFile content_file | Listing "content_file list"

text \<open>The list comprehension and the join of line 223.\<close>

definition number_lines :: "string \<Rightarrow> string" where
  "number_lines file_content =
     concat (map (\<lambda>(i, line). str_nat (i + 1) @ '': '' @ line)
                 (enumerate 0 (py_split newline file_content)))"

text \<open>
  \<open>get_contents\<close> is the repository at hand: it raises or returns. Every exception
  inside the \<open>try\<close> gives the empty string.
\<close>

definition get_code_with_lines ::
    "(string \<Rightarrow> string \<Rightarrow> error + fetched) \<Rightarrow> string \<Rightarrow> string \<Rightarrow> string" where
  "get_code_with_lines get_contents base_commit_sha file_path =
     (case get_contents file_path base_commit_sha of
        Inl e \<Rightarrow> []
      | Inr (Listing cs) \<Rightarrow> []
      | Inr (OneFile content) \<Rightarrow>
          if content_type content \<noteq> ''file'' then []
          else (case decoded_content content of
                  None \<Rightarrow> []
                | Some file_content \<Rightarrow> number_lines file_content))"

section \<open>Repository coordinates (codebase\_analyzer.py, derive\_repo\_info)\<close>

record repo_info =
  repo_owner :: string
  repo_name :: string
  file_path :: string

text \<open>
  \<open>re.search(r'diff --git a/([^\s]+)', patch)\<close>: the leftmost position where the
  literal stands and is followed by a character that is not whitespace; \<open>group(1)\<close>
  is the longest run of such characters from there.
\<close>

definition diff_header :: string where
  "diff_header = ''diff --git a/''"

fun search_diff :: "string \<Rightarrow> string option" where
  "search_diff [] = None"
| "search_diff (c # cs) =
     (let group1 = takeWhile (\<lambda>x. \<not> is_space x) (drop (length diff_header) (c # cs))
      in if take (length diff_header) (c # cs) = diff_header \<and> group1 \<noteq> []
         then Some group1
         else search_diff cs)"

declare search_diff.simps(2) [simp del]

text \<open>
  \<open>model_info\<close> is a dictionary from keys to texts. \<open>not model_info.get("model_patch")\<close>
  holds when the key is absent and when its text is empty.
\<close>

definition derive_repo_info :: "(string \<rightharpoonup> string) \<Rightarrow> error + repo_info" where
  "derive_repo_info model_info =
     (case model_info ''model_patch'' of
        None \<Rightarrow> Inl (ValueError ''model_patch is required in model_info'')
      | Some patch \<Rightarrow>
          if patch = [] then Inl (ValueError ''model_patch is required in model_info'')
          else
            (case search_diff patch of
               None \<Rightarrow> Inl (ValueError ''Could not extract file path from patch'')
             | Some path \<Rightarrow>
                 (case py_split (CHR ''/'') path of
                    [] \<Rightarrow> Inl IndexError
                  | name # parts \<Rightarrow>
                      Inr \<lparr>repo_owner = name, repo_name = name, file_path = path\<rparr>)))"

section \<open>Patch selection (eval\_harness.py, select\_best\_solution)\<close>

text \<open>
  An evaluation result is the dictionary \<open>{original: {passed, total}, patch}\<close>; two
  results are equal as dictionaries when their fields are.
\<close>

record eval_result =
  original_passed :: int
  original_total :: int
  patch :: string

definition patch_size :: "eval_result \<Rightarrow> nat" where
  "patch_size res = length (splitlines (patch res))"

text \<open>
  \<open>a < b\<close> on the tuples \<open>(key, res)\<close>: Python looks for the first position where the
  tuples differ (with \<open>==\<close>) and compares there. Integers compare; two different
  dictionaries do not, and \<open>a < b\<close> raises \<open>TypeError\<close>. Equal tuples are not less.
\<close>

definition tuple_lt :: "int \<times> eval_result \<Rightarrow> int \<times> eval_result \<Rightarrow> error + bool" where
  "tuple_lt a b =
     (if fst a \<noteq> fst b then Inr (fst a < fst b)
      else if snd a \<noteq> snd b then Inl TypeError
      else Inr False)"

text \<open>
  \<open>sorted(candidates)\<close>: a stable sort that only ever asks \<open>a < b\<close>, here by
  insertion from the left. An element goes before the first element it is less
  than; the first comparison that raises ends the sort with that exception.
\<close>

fun insert_sorted ::
    "int \<times> eval_result \<Rightarrow> (int \<times> eval_result) list \<Rightarrow> error + (int \<times> eval_result) list" where
  "insert_sorted x [] = Inr [x]"
| "insert_sorted x (y # ys) =
     (case tuple_lt x y of
        Inl e \<Rightarrow> Inl e
      | Inr True \<Rightarrow> Inr (x # y # ys)
      | Inr False \<Rightarrow>
          (case insert_sorted x ys of
             Inl e \<Rightarrow> Inl e
           | Inr zs \<Rightarrow> Inr (y # zs)))"

fun sorted_from ::
    "(int \<times> eval_result) list \<Rightarrow> (int \<times> eval_result) list \<Rightarrow> error + (int \<times> eval_result) list" where
  "sorted_from acc [] = Inr acc"
| "sorted_from acc (x # xs) =
     (case insert_sorted x acc of
        Inl e \<Rightarrow> Inl e
      | Inr acc' \<Rightarrow> sorted_from acc' xs)"

definition py_sorted :: "(int \<times> eval_result) list \<Rightarrow> error + (int \<times> eval_result) list" where
  "py_sorted xs = sorted_from [] xs"

definition select_best_solution :: "eval_result list \<Rightarrow> error + eval_result option" where
  "select_best_solution results =
     (let candidates = map (\<lambda>res. (- int (patch_size res), res)) results
      in if candidates = [] then Inr None
         else (case py_sorted candidates of
                 Inl e \<Rightarrow> Inl e
               | Inr [] \<Rightarrow> Inl IndexError
               | Inr (best # rest) \<Rightarrow> Inr (Some (snd best))))"

section \<open>Repository tree (codebase\_analyzer.py, file\_level\_localization)\<close>

text \<open>
  Python values, as far as this development tells them apart. A finite \<open>float\<close> is
  the rational number it stands for; \<open>PyInf\<close> is the float \<open>inf\<close>.
\<close>

datatype pyval = PyStr string | PyInt int | PyFloat rat | PyInf | PyNone | PyObject

text \<open>
  Reading a name: the innermost binding, or \<open>NameError\<close> when no scope binds it.
  A scope is the map of the names visible at the place of the read.
\<close>

definition lookup_name :: "(string \<rightharpoonup> pyval) \<Rightarrow> string \<Rightarrow> error + pyval" where
  "lookup_name scope x = (case scope x of None \<Rightarrow> Inl (NameError x) | Some v \<Rightarrow> Inr v)"

text \<open>
  The names bound at module level in codebase\_analyzer.py: its imports and its class.
  No builtin is called \<open>base_commit_sha\<close>.
\<close>

definition module_globals :: "string \<rightharpoonup> pyval" where
  "module_globals =
     [''os'' \<mapsto> PyObject, ''Dict'' \<mapsto> PyObject, ''List'' \<mapsto> PyObject, ''re'' \<mapsto> PyObject,
      ''Path'' \<mapsto> PyObject, ''Github'' \<mapsto> PyObject, ''Repository'' \<mapsto> PyObject,
      ''ContentFile'' \<mapsto> PyObject, ''CodebaseAnalyzer'' \<mapsto> PyObject]"

text \<open>
  A repository is a finite tree. A directory carries its name, its path, and for each
  revision at which it can be listed its entries; \<open>repo.get_contents(path, ref)\<close>
  raises for any other revision.
\<close>

datatype content =
    ContentFile string
  | ContentDir string string "(string \<times> content list) list"

fun name_of :: "content \<Rightarrow> string" where
  "name_of (ContentFile n) = n"
| "name_of (ContentDir n p revisions) = n"

definition get_contents :: "(string \<times> content list) list \<Rightarrow> string \<Rightarrow> error + content list" where
  "get_contents revisions ref =
     (case map_of revisions ref of None \<Rightarrow> Inl GithubException | Some cs \<Rightarrow> Inr cs)"

text \<open>The glyphs \<open>"\<bar>   "\<close> and \<open>"\<turnstile>\<midarrow>\<midarrow> "\<close> of the tree, as their UTF-8 bytes.\<close>

definition indent_glyph :: string where
  "indent_glyph = [CHR 0xE2, CHR 0x94, CHR 0x82, CHR '' '', CHR '' '', CHR '' '']"

definition entry_glyph :: string where
  "entry_glyph =
     [CHR 0xE2, CHR 0x94, CHR 0x9C, CHR 0xE2, CHR 0x94, CHR 0x80, CHR 0xE2, CHR 0x94, CHR 0x80,
      CHR '' '']"

lemma get_contents_size [termination_simp]:
  "get_contents revisions ref = Inr cs \<Longrightarrow>
   size_list size cs < Suc (size_list (size_prod (\<lambda>_. 0) (size_list size)) revisions)"
  by (auto simp: get_contents_def split: option.splits dest!: map_of_SomeD)
     (induction revisions; fastforce)

lemma content_dir_size:
  assumes "get_contents repo ref = Inr contents" and "ContentDir n p sub \<in> set contents"
  shows "size_list (size_prod (\<lambda>_. 0) (size_list size)) sub
         < size_list (size_prod (\<lambda>_. 0) (size_list size)) repo"
  using get_contents_size [OF assms(1)]
    size_list_estimation' [OF assms(2), of "size (ContentDir n p sub)" size]
  by simp

text \<open>
  \<open>build_tree(repo, path, indent)\<close>. \<open>scope\<close> holds the names of the enclosing
  scopes; the function's own names are added to it. The arguments of
  \<open>repo.get_contents(path, ref=base_commit_sha)\<close> are read before the call is made,
  and every exception of the \<open>try\<close> block leaves \<open>tree_str\<close> as it is.
\<close>

function build_tree ::
    "(string \<rightharpoonup> pyval) \<Rightarrow> (string \<times> content list) list \<Rightarrow> string \<Rightarrow> nat \<Rightarrow> string" where
  "build_tree scope repo path indent =
     (case lookup_name
             (scope(''repo'' \<mapsto> PyObject, ''path'' \<mapsto> PyStr path,
                    ''indent'' \<mapsto> PyInt (int indent), ''tree_str'' \<mapsto> PyStr []))
             ''base_commit_sha'' of
        Inl e \<Rightarrow> []
      | Inr (PyStr ref) \<Rightarrow>
          (case get_contents repo ref of
             Inl e \<Rightarrow> []
           | Inr contents \<Rightarrow>
               concat (map (\<lambda>content.
                              case content of
                                ContentDir n p sub \<Rightarrow>
                                  concat (replicate indent indent_glyph) @ entry_glyph @ n
                                  @ ''/'' @ [newline] @ build_tree scope sub p (indent + 1)
                              | ContentFile n \<Rightarrow>
                                  concat (replicate indent indent_glyph) @ entry_glyph @ n
                                  @ [newline])
                           (sort_key name_of contents)))
      | Inr v \<Rightarrow> [])"
  by pat_completeness auto
termination
  apply (relation "measure (\<lambda>(scope, repo, path, indent).
                     size_list (size_prod (\<lambda>_. 0) (size_list size)) repo)")
   apply simp
  apply (auto intro: content_dir_size)
  done

declare build_tree.simps [simp del]

text \<open>The template of the stage-1 prompt, with its four insertions.\<close>

definition file_level_prompt :: "int \<Rightarrow> string \<Rightarrow> string \<Rightarrow> string \<Rightarrow> string" where
  "file_level_prompt n codebase_tree issue_description test_patch =
     ''Analyze this software repository and identify the '' @ str_int n
       @ '' files most likely '' @ [newline]
     @ ''    to require test case additions based on the issue description and existing test patch.''
       @ [newline]
     @ [newline]
     @ ''    Repository Structure:'' @ [newline]
     @ ''    '' @ codebase_tree @ [newline]
     @ [newline]
     @ ''    Issue Description:'' @ [newline]
     @ ''    '' @ issue_description @ [newline]
     @ [newline]
     @ ''    Existing Test Patch:'' @ [newline]
     @ ''    '' @ test_patch @ [newline]
     @ [newline]
     @ ''    Output Requirements:'' @ [newline]
     @ ''    1. List '' @ str_int n @ '' full file paths from the repository structure'' @ [newline]
     @ ''    2. Order by relevance to the issue'' @ [newline]
     @ ''    3. Format as bullet points with explanations'' @ [newline]
     @ ''    4. Focus on test files and code under test'' @ [newline]
     @ [newline]
     @ ''    Example Response:'' @ [newline]
     @ ''    - sklearn/svm/tests/test_svm.py (Contains SVM test cases similar to the patch)''
       @ [newline]
     @ ''    - sklearn/svm/base.py (Implements core SVM functionality referenced in issue)''
       @ [newline]
     @ ''    ''"

text \<open>
  The names bound in \<open>file_level_localization\<close> when \<open>build_tree\<close> runs: its
  parameters, \<open>g\<close>, \<open>repo\<close> and \<open>build_tree\<close> itself, over the module's names.
\<close>

definition file_level_scope ::
    "string \<Rightarrow> string \<Rightarrow> string \<Rightarrow> string \<Rightarrow> string option \<Rightarrow> int \<Rightarrow> (string \<rightharpoonup> pyval)" where
  "file_level_scope repo_owner' repo_name' issue_description test_patch github_token n =
     module_globals
       (''repo_owner'' \<mapsto> PyStr repo_owner',
        ''repo_name'' \<mapsto> PyStr repo_name',
        ''issue_description'' \<mapsto> PyStr issue_description,
        ''test_patch'' \<mapsto> PyStr test_patch,
        ''github_token'' \<mapsto> (case github_token of None \<Rightarrow> PyNone | Some t \<Rightarrow> PyStr t),
        ''n'' \<mapsto> PyInt n,
        ''g'' \<mapsto> PyObject,
        ''repo'' \<mapsto> PyObject,
        ''build_tree'' \<mapsto> PyObject)"

text \<open>
  \<open>get_repo\<close> is the hosting service, reached through the client \<open>g\<close> that is
  built before the \<open>try\<close>: for \<open>owner/name\<close> it returns the repository or raises
  an exception \<open>e\<close>, given here by its text \<open>str(e)\<close>. The exception is raised
  again as \<open>Exception\<close> with the text \<open>Error accessing GitHub repository: \<close>
  followed by \<open>str(e)\<close>.
\<close>

definition file_level_localization ::
    "(string \<Rightarrow> string + (string \<times> content list) list) \<Rightarrow>
     string \<Rightarrow> string \<Rightarrow> string \<Rightarrow> string \<Rightarrow> string option \<Rightarrow> int \<Rightarrow> error + string" where
  "file_level_localization get_repo repo_owner' repo_name' issue_description test_patch
       github_token n =
     (case get_repo (repo_owner' @ ''/'' @ repo_name') of
        Inl message \<Rightarrow> Inl (Exception (''Error accessing GitHub repository: '' @ message))
      | Inr repo \<Rightarrow>
          (let codebase_tree =
                 build_tree
                   (file_level_scope repo_owner' repo_name' issue_description test_patch
                      github_token n)
                   repo [] 0
           in Inr (file_level_prompt n codebase_tree issue_description test_patch)))"

section \<open>Success rate (process\_results.py, calculate\_success\_rate)\<close>

text \<open>
  Python's \<open>float\<close> is the IEEE 754 binary64 format: 53 significant bits, the
  smallest spacing \<open>2 powi -1074\<close>, rounding to nearest with ties to the even
  significand. \<open>round_to_double x\<close> is the value a real result \<open>x\<close> is rounded to
  before the range is checked.
\<close>

definition round_half_even :: "rat \<Rightarrow> int" where
  "round_half_even x =
     (let f = \<lfloor>x\<rfloor>; d = x - of_int f
      in if d < 1 / 2 then f
         else if d > 1 / 2 then f + 1
         else if even f then f else f + 1)"

text \<open>The number of binary digits of a positive integer.\<close>

function bit_length :: "int \<Rightarrow> nat" where
  "bit_length n = (if n \<le> 0 then 0 else Suc (bit_length (n div 2)))"
  by pat_completeness auto
termination
  by (relation "measure nat") auto

declare bit_length.simps [simp del]

text \<open>For \<open>x > 0\<close>, the integer \<open>e\<close> with \<open>2 powi e \<le> x < 2 powi (e + 1)\<close>.\<close>

definition floor_log2 :: "rat \<Rightarrow> int" where
  "floor_log2 x =
     (let (a, b) = quotient_of x;
          e = int (bit_length a) - int (bit_length b)
      in if 2 powi e \<le> x then e else e - 1)"

definition round_to_double :: "rat \<Rightarrow> rat" where
  "round_to_double x =
     (if x = 0 then 0
      else (let e = floor_log2 \<bar>x\<bar>;
                q = max (e - 52) (- 1074)
            in sgn x * of_int (round_half_even (\<bar>x\<bar> / 2 powi q)) * 2 powi q))"










section \<open>Notions used to state the properties\<close>

text \<open>
  Two tuples clash when their keys are equal and their results differ: the comparison
  that raises. \<open>clashing acc xs\<close> says that an element of \<open>xs\<close> clashes with an
  element of \<open>acc\<close> or of \<open>xs\<close>.
\<close>

definition clash :: "int \<times> eval_result \<Rightarrow> int \<times> eval_result \<Rightarrow> bool" where
  "clash a b = (fst a = fst b \<and> snd a \<noteq> snd b)"

definition clashing :: "(int \<times> eval_result) list \<Rightarrow> (int \<times> eval_result) list \<Rightarrow> bool" where
  "clashing acc xs = (\<exists>a\<in>set xs. \<exists>b\<in>set acc \<union> set xs. clash a b)"

text \<open>The tuple appended for a result, and the ties that matter: two results of the
  list with the same number of patch lines that differ as dictionaries.\<close>

definition candidate :: "eval_result \<Rightarrow> int \<times> eval_result" where
  "candidate res = (- int (patch_size res), res)"

definition tied :: "eval_result list \<Rightarrow> bool" where
  "tied results = (\<exists>r1\<in>set results. \<exists>r2\<in>set results. patch_size r1 = patch_size r2 \<and> r1 \<noteq> r2)"

text \<open>A result whose patch has \<open>k\<close> lines, and a small repository with one revision.\<close>

definition result_with_lines :: "int \<Rightarrow> nat \<Rightarrow> eval_result" where
  "result_with_lines passed k =
     \<lparr>original_passed = passed, original_total = 3,
      patch = concat (replicate k (''+x'' @ [newline]))\<rparr>"

definition sample_repo :: "(string \<times> content list) list" where
  "sample_repo =
     [(''abc'', [ContentFile ''setup.py'',
                ContentDir ''pkg'' ''pkg'' [(''abc'', [ContentFile ''b.py'', ContentFile ''a.py''])],
                ContentDir ''docs'' ''docs'' []])]"

text \<open>
  An occurrence of a diff header in a patch text, at any position: after \<open>pre\<close>
  stands \<open>diff --git a/\<close>, then \<open>path\<close>, a non-empty run of characters that
  are not whitespace, which ends at the end of the text or at a whitespace character.
  \<open>pre\<close> need not end a line. \<open>first_diff_path\<close> is the run after the leftmost
  occurrence, and \<open>first_segment\<close> what precedes its first slash.
\<close>

definition diff_header_at :: "string \<Rightarrow> string \<Rightarrow> string \<Rightarrow> string \<Rightarrow> bool" where
  "diff_header_at diff_text pre path post =
     (diff_text = pre @ diff_header @ path @ post
      \<and> path \<noteq> [] \<and> (\<forall>c\<in>set path. \<not> is_space c)
      \<and> (post = [] \<or> is_space (hd post)))"

definition has_diff_header :: "string \<Rightarrow> bool" where
  "has_diff_header diff_text = (\<exists>pre path post. diff_header_at diff_text pre path post)"

definition first_diff_path :: "string \<Rightarrow> string \<Rightarrow> bool" where
  "first_diff_path diff_text path =
     (\<exists>pre post. diff_header_at diff_text pre path post
        \<and> (\<forall>pre' path' post'. diff_header_at diff_text pre' path' post' \<longrightarrow> length pre \<le> length pre'))"

definition first_segment :: "string \<Rightarrow> string" where
  "first_segment path = takeWhile (\<lambda>c. c \<noteq> CHR ''/'') path"

text \<open>
  A diff header line, as a unified diff has it: a line of the text that begins with
  \<open>diff --git a/\<close> and goes on with a path.
\<close>

definition is_diff_line :: "string \<Rightarrow> bool" where
  "is_diff_line line =
     (take (length diff_header) line = diff_header \<and> drop (length diff_header) line \<noteq> [])"

definition has_diff_line :: "string \<Rightarrow> bool" where
  "has_diff_line diff_text = list_ex is_diff_line (py_split newline diff_text)"

text \<open>The test that \<open>search_diff\<close> makes at one position, and the group it captures.\<close>

definition header_here :: "string \<Rightarrow> bool" where
  "header_here s =
     (take (length diff_header) s = diff_header
      \<and> takeWhile (\<lambda>x. \<not> is_space x) (drop (length diff_header) s) \<noteq> [])"

definition group1 :: "string \<Rightarrow> string" where
  "group1 s = takeWhile (\<lambda>x. \<not> is_space x) (drop (length diff_header) s)"

text \<open>The patch of the end-to-end scenario.\<close>

definition sample_patch :: string where
  "sample_patch = ''diff --git a/foo/bar.py b/foo/bar.py'' @ [newline] @ ''--- a/foo/bar.py''"




text \<open>A small source text: a decorator, a class header with a trailing comment, an
  assignment and a one-line function.\<close>

definition sample_source :: string where
  "sample_source =
     ''@dec  '' @ [newline] @ ''class A(B):  # c'' @ [newline] @ ''x = 1'' @ [newline]
     @ ''def f(x): return x''"

section \<open>Properties of prompt truncation\<close>

lemma rfind_rev_bounds: "- 1 \<le> rfind_rev c xs \<and> rfind_rev c xs < int (length xs)"
  by (induction xs) auto

lemma rfind_rev_none: "rfind_rev c xs = - 1 \<longleftrightarrow> c \<notin> set xs"
proof (induction xs)
  case Nil
  show ?case by simp
next
  case (Cons x xs)
  show ?case using Cons by auto
qed

lemma rfind_rev_hit: "c \<in> set xs \<Longrightarrow> rev xs ! nat (rfind_rev c xs) = c"
proof (induction xs)
  case Nil
  then show ?case by simp
next
  case (Cons x xs)
  show ?case
  proof (cases "x = c")
    case True
    then show ?thesis by (simp add: nth_append)
  next
    case False
    with Cons.prems have in_xs: "c \<in> set xs" by simp
    have "rfind_rev c xs < int (length xs)" "- 1 \<le> rfind_rev c xs"
      using rfind_rev_bounds [of c xs] by auto
    moreover have "rfind_rev c xs \<noteq> - 1" using in_xs rfind_rev_none by blast
    ultimately have "nat (rfind_rev c xs) < length xs" by linarith
    with False Cons.IH [OF in_xs] show ?thesis by (simp add: nth_append)
  qed
qed

lemma py_rfind_bounds: "- 1 \<le> py_rfind s c \<and> py_rfind s c < int (length s)"
  using rfind_rev_bounds [of c "rev s"] by (simp add: py_rfind_def)

lemma py_rfind_none: "py_rfind s c = - 1 \<longleftrightarrow> c \<notin> set s"
  using rfind_rev_none [of c "rev s"] by (simp add: py_rfind_def)

lemma py_rfind_hit: "c \<in> set s \<Longrightarrow> s ! nat (py_rfind s c) = c"
  using rfind_rev_hit [of c "rev s"] by (simp add: py_rfind_def)

text \<open>
  Claim C4, as stated, fails: a prompt of 480001 characters is longer than four times
  the ceiling, its estimate \<open>480001 // 4\<close> is exactly the ceiling, so it is not
  truncated and goes out with all its 480001 characters.
\<close>

theorem truncate_prompt_not_bounded_by_length:
  "length (replicate 480001 (CHR ''a'')) > 4 * max_tokens
   \<and> \<not> length (truncate_prompt (replicate 480001 (CHR ''a''))) \<le> 4 * max_tokens"
  by (simp add: truncate_prompt_def max_tokens_def)

text \<open>
  Claim C4, amended: for every prompt whose estimated token count \<open>len(prompt) // 4\<close>
  exceeds the ceiling of 120000 (that is, of at least 480004 characters), the prompt
  sent on has at most 480000 characters, and it ends with a period whenever a period
  occurs among the first 480000 characters.
\<close>

theorem truncate_prompt_bounded:
  assumes "length prompt div 4 > max_tokens"
  shows "length (truncate_prompt prompt) \<le> 4 * max_tokens
         \<and> (CHR ''.'' \<in> set (take (4 * max_tokens) prompt) \<longrightarrow>
              truncate_prompt prompt \<noteq> [] \<and> last (truncate_prompt prompt) = CHR ''.'')"
proof -
  define t where "t = take (max_tokens * 4) prompt"
  define k where "k = py_rfind t (CHR ''.'')"
  have tp: "truncate_prompt prompt = (if k \<noteq> - 1 then take (nat (k + 1)) t else t)"
    using assms by (simp add: truncate_prompt_def Let_def t_def k_def)
  have lt: "length t \<le> 4 * max_tokens" by (simp add: t_def)
  have bound: "length (truncate_prompt prompt) \<le> 4 * max_tokens"
    using lt by (auto simp: tp)
  have period: "truncate_prompt prompt \<noteq> [] \<and> last (truncate_prompt prompt) = CHR ''.''"
    if "CHR ''.'' \<in> set (take (4 * max_tokens) prompt)"
  proof -
    from that have mem: "CHR ''.'' \<in> set t" by (simp add: t_def mult.commute)
    then have k1: "k \<noteq> - 1" using py_rfind_none [of t "CHR ''.''"] by (simp add: k_def)
    have kb: "- 1 \<le> k" "k < int (length t)"
      using py_rfind_bounds [of t "CHR ''.''"] by (auto simp: k_def)
    with k1 have k0: "0 \<le> k" by linarith
    then have nk: "nat (k + 1) = Suc (nat k)" by linarith
    have nlt: "nat k < length t" using kb k0 by linarith
    have "take (nat (k + 1)) t = take (nat k) t @ [t ! nat k]"
      using nlt by (simp add: nk take_Suc_conv_app_nth)
    moreover have "t ! nat k = CHR ''.''" using py_rfind_hit [OF mem] by (simp add: k_def)
    ultimately show ?thesis using k1 by (simp add: tp)
  qed
  show ?thesis using bound period by blast
qed

theorem truncate_prompt_bounded_witness:
  "length (replicate 480004 (CHR ''.'')) div 4 > max_tokens
   \<and> length (truncate_prompt (replicate 480004 (CHR ''.''))) \<le> 4 * max_tokens
   \<and> last (truncate_prompt (replicate 480004 (CHR ''.''))) = CHR ''.''"
  using truncate_prompt_bounded [of "replicate 480004 (CHR ''.'')"]
  by (simp add: max_tokens_def)

section \<open>Properties of outline extraction\<close>

subsection \<open>Character classes and list scans\<close>

lemma word_not_space: "is_word c \<Longrightarrow> \<not> is_space c"
  unfolding is_word_def is_space_def Let_def by linarith

lemma at_not_space: "\<not> is_space (CHR ''@'')"
  by (simp add: is_space_def)

lemma colon_not_word: "\<not> is_word (CHR '':'')"
  by (simp add: is_word_def)

lemma takeWhile_stop: "(\<forall>x\<in>set xs. P x) \<Longrightarrow> \<not> P y \<Longrightarrow> takeWhile P (xs @ y # ys) = xs"
  by (induction xs) auto

lemma dropWhile_stop: "(\<forall>x\<in>set xs. P x) \<Longrightarrow> \<not> P y \<Longrightarrow> dropWhile P (xs @ y # ys) = y # ys"
  by (induction xs) auto

lemma dropWhile_keep_tail: "\<not> P y \<Longrightarrow> dropWhile P (xs @ y # ys) = dropWhile P xs @ y # ys"
  by (induction xs) auto

subsection \<open>What a header match returns\<close>

lemma header_match_SomeE:
  assumes "header_match kw line = Some g"
  obtains spaces ident lazy rest where
    "line = g @ rest" and "g = kw @ spaces @ ident @ lazy @ '':''"
    and "spaces \<noteq> []" and "\<forall>c\<in>set spaces. is_space c"
    and "ident \<noteq> []" and "\<forall>c\<in>set ident. is_word c"
    and "\<forall>c\<in>set lazy. c \<noteq> CHR '':'' \<and> c \<noteq> newline"
    and "lazy \<noteq> [] \<longrightarrow> \<not> is_word (hd lazy)"
proof -
  define a where "a = drop (length kw) line"
  define sp where "sp = takeWhile is_space a"
  define b where "b = dropWhile is_space a"
  define ident where "ident = takeWhile is_word b"
  define d where "d = dropWhile is_word b"
  define lazy where "lazy = takeWhile (\<lambda>c. c \<noteq> CHR '':'') d"
  from assms have kw: "take (length kw) line = kw"
    by (auto simp: header_match_def split: if_splits)
  from assms kw have cond: "sp \<noteq> []" "ident \<noteq> []" "CHR '':'' \<in> set d" "newline \<notin> set lazy"
    and g: "g = kw @ sp @ ident @ lazy @ '':''"
    by (auto simp: header_match_def Let_def a_def sp_def b_def ident_def d_def lazy_def
        split: if_splits)
  have line: "line = kw @ a" using kw append_take_drop_id [of "length kw" line] by (simp add: a_def)
  have a: "a = sp @ b" by (simp add: sp_def b_def)
  have b: "b = ident @ d" by (simp add: ident_def d_def)
  obtain rest where d: "d = lazy @ CHR '':'' # rest"
  proof -
    have "d = lazy @ dropWhile (\<lambda>c. c \<noteq> CHR '':'') d" by (simp add: lazy_def)
    moreover have "dropWhile (\<lambda>c. c \<noteq> CHR '':'') d \<noteq> []" using cond(3) by (simp add: dropWhile_eq_Nil_conv)
    moreover have "hd (dropWhile (\<lambda>c. c \<noteq> CHR '':'') d) = CHR '':''"
      using hd_dropWhile [of "\<lambda>c. c \<noteq> CHR '':''" d] calculation(2) by auto
    ultimately show ?thesis using that by (metis list.collapse)
  qed
  have c1: "line = g @ rest" by (simp add: line a b d g)
  have c4: "\<forall>c\<in>set sp. is_space c" by (auto simp: sp_def dest: set_takeWhileD)
  have c6: "\<forall>c\<in>set ident. is_word c" by (auto simp: ident_def dest: set_takeWhileD)
  have c7: "\<forall>c\<in>set lazy. c \<noteq> CHR '':'' \<and> c \<noteq> newline"
    using cond(4) by (auto simp: lazy_def dest: set_takeWhileD)
  have c8: "lazy \<noteq> [] \<longrightarrow> \<not> is_word (hd lazy)"
  proof
    assume "lazy \<noteq> []"
    then have "d \<noteq> []" "hd lazy = hd d" using d by (auto simp: hd_append)
    then show "\<not> is_word (hd lazy)" using hd_dropWhile [of is_word b] by (simp add: d_def)
  qed
  show ?thesis by (rule that [OF c1 g cond(1) c4 cond(2) c6 c7 c8])
qed

lemma header_match_build:
  assumes "spaces \<noteq> []" "\<forall>c\<in>set spaces. is_space c"
    and "ident \<noteq> []" "\<forall>c\<in>set ident. is_word c"
    and "\<forall>c\<in>set lazy. c \<noteq> CHR '':'' \<and> c \<noteq> newline"
    and "lazy \<noteq> [] \<longrightarrow> \<not> is_word (hd lazy)"
  shows "header_match kw (kw @ spaces @ ident @ lazy @ CHR '':'' # rest)
         = Some (kw @ spaces @ ident @ lazy @ '':'')"
proof -
  obtain i ident' where ident: "ident = i # ident'" using assms(3) by (cases ident) auto
  have ni: "\<not> is_space i" using assms(4) ident word_not_space by auto
  obtain y ys where y: "lazy @ CHR '':'' # rest = y # ys" "\<not> is_word y"
  proof (cases lazy)
    case Nil
    then show ?thesis using that [of "CHR '':''" rest] colon_not_word by simp
  next
    case (Cons l ls)
    then show ?thesis using that [of l "ls @ CHR '':'' # rest"] assms(6) by simp
  qed
  define tl1 where "tl1 = lazy @ CHR '':'' # rest"
  define a where "a = spaces @ ident @ tl1"
  have sp1: "takeWhile is_space a = spaces"
    unfolding a_def ident using assms(2) ni by (simp add: takeWhile_stop)
  have sp2: "dropWhile is_space a = ident @ tl1"
    unfolding a_def ident using assms(2) ni by (simp add: dropWhile_stop)
  have id1: "takeWhile is_word (ident @ tl1) = ident"
    unfolding tl1_def y(1) using assms(4) y(2) by (rule takeWhile_stop)
  have id2: "dropWhile is_word (ident @ tl1) = tl1"
    unfolding tl1_def y(1) using assms(4) y(2) by (rule dropWhile_stop)
  have lz: "takeWhile (\<lambda>c. c \<noteq> CHR '':'') tl1 = lazy"
    unfolding tl1_def using assms(5) by (simp add: takeWhile_stop)
  have colon: "CHR '':'' \<in> set tl1" by (simp add: tl1_def)
  have nl: "newline \<notin> set lazy" using assms(5) by blast
  have "header_match kw (kw @ a) = Some (kw @ spaces @ ident @ lazy @ '':'')"
    by (simp add: header_match_def Let_def sp1 sp2 id1 id2 lz colon nl assms(1,3))
  then show ?thesis by (simp add: a_def tl1_def)
qed

lemma header_match_idem:
  assumes "header_match kw line = Some g"
  shows "header_match kw g = Some g"
proof -
  from assms obtain spaces ident lazy rest where
    h: "line = g @ rest" "g = kw @ spaces @ ident @ lazy @ '':''"
      "spaces \<noteq> []" "\<forall>c\<in>set spaces. is_space c"
      "ident \<noteq> []" "\<forall>c\<in>set ident. is_word c"
      "\<forall>c\<in>set lazy. c \<noteq> CHR '':'' \<and> c \<noteq> newline"
      "lazy \<noteq> [] \<longrightarrow> \<not> is_word (hd lazy)"
    by (rule header_match_SomeE)
  have "header_match kw (kw @ spaces @ ident @ lazy @ CHR '':'' # []) = Some g"
    unfolding h(2) by (rule header_match_build [OF h(3-8)])
  then show ?thesis by (simp add: h(2))
qed

lemma header_match_prefix:
  assumes "header_match kw line = Some g"
  shows "\<exists>rest. line = g @ rest"
  using assms by (rule header_match_SomeE) (rule exI)

lemma header_match_no_newline:
  assumes "header_match kw line = Some g" "newline \<notin> set line"
  shows "newline \<notin> set g"
proof -
  from header_match_prefix [OF assms(1)] obtain rest where "line = g @ rest" by blast
  with assms(2) show ?thesis by simp
qed

lemma decorator_matchD:
  "decorator_match line \<Longrightarrow> \<exists>d cs. line = CHR ''@'' # d # cs \<and> is_word d"
  by (cases line rule: decorator_match.cases) auto

lemma py_strip_decorator:
  assumes "is_word d"
  shows "py_strip (CHR ''@'' # d # cs) = CHR ''@'' # d # rev (dropWhile is_space (rev cs))"
proof -
  have nd: "\<not> is_space d" using assms by (rule word_not_space)
  have "dropWhile is_space (rev cs @ d # [CHR ''@'']) = dropWhile is_space (rev cs) @ d # [CHR ''@'']"
    using nd by (rule dropWhile_keep_tail)
  then show ?thesis by (simp add: py_strip_def at_not_space)
qed

lemma decorator_strip:
  assumes "decorator_match line"
  shows "decorator_match (py_strip line) \<and> py_strip (py_strip line) = py_strip line"
proof -
  from decorator_matchD [OF assms] obtain d cs where l: "line = CHR ''@'' # d # cs" "is_word d"
    by blast
  have "py_strip (CHR ''@'' # d # rev (dropWhile is_space (rev cs)))
        = CHR ''@'' # d # rev (dropWhile is_space (rev cs))"
    by (simp add: py_strip_decorator [OF l(2)])
  then show ?thesis
    using l(2) by (simp add: l(1) py_strip_decorator [OF l(2)])
qed

lemma set_py_strip: "set (py_strip s) \<subseteq> set s"
proof -
  have "set (py_strip s) \<subseteq> set (dropWhile is_space s)"
    unfolding py_strip_def using set_dropWhileD [of _ is_space "rev (dropWhile is_space s)"] by auto
  also have "\<dots> \<subseteq> set s" using set_dropWhileD [of _ is_space s] by auto
  finally show ?thesis .
qed

lemma header_match_keyword:
  assumes "header_match kw line = Some g"
  shows "\<exists>rest. g = kw @ rest"
  using assms by (rule header_match_SomeE) (rule exI)

lemma class_not_decorator:
  assumes "class_match l = Some g"
  shows "\<not> decorator_match g"
proof -
  from header_match_keyword [OF assms [unfolded class_match_def]]
  obtain rest where "g = ''class'' @ rest" by blast
  then show ?thesis by simp
qed

lemma func_not_decorator:
  assumes "func_match l = Some g"
  shows "\<not> decorator_match g"
proof -
  from header_match_keyword [OF assms [unfolded func_match_def]]
  obtain rest where "g = ''def'' @ rest" by blast
  then show ?thesis by simp
qed

lemma header_match_wrong_keyword:
  assumes "take (length kw) line \<noteq> kw"
  shows "header_match kw line = None"
  using assms unfolding header_match_def by (rule if_P)

lemma func_not_class:
  assumes "func_match l = Some g"
  shows "class_match g = None"
proof -
  from header_match_keyword [OF assms [unfolded func_match_def]]
  obtain rest where g: "g = ''def'' @ rest" by blast
  have "take (length ''class'') g \<noteq> ''class''" by (simp add: g)
  then show ?thesis unfolding class_match_def by (rule header_match_wrong_keyword)
qed

lemma outline_of_line_fixed:
  assumes "outline_of_line line = Some l"
  shows "outline_of_line l = Some l"
proof (cases "decorator_match line")
  case True
  then have l: "l = py_strip line" using assms by (simp add: outline_of_line_def)
  show ?thesis using decorator_strip [OF True] by (simp add: outline_of_line_def l)
next
  case False
  note nd = this
  show ?thesis
  proof (cases "class_match line")
    case (Some g)
    then have gl: "g = l" using assms nd by (simp add: outline_of_line_def)
    have m: "class_match l = Some l"
      using Some header_match_idem [of "''class''" line g] by (simp add: class_match_def gl)
    have "\<not> decorator_match l" using m by (rule class_not_decorator)
    then show ?thesis using m by (simp add: outline_of_line_def)
  next
    case None
    then have f: "func_match line = Some l" using assms nd by (simp add: outline_of_line_def)
    have m: "func_match l = Some l"
      using f header_match_idem [of "''def''" line l] by (simp add: func_match_def)
    have nd': "\<not> decorator_match l" using m by (rule func_not_decorator)
    have "class_match l = None" using m by (rule func_not_class)
    then show ?thesis using m nd' by (simp add: outline_of_line_def)
  qed
qed

lemma outline_of_line_kind:
  assumes "outline_of_line line = Some l"
  shows "is_outline_line l"
  using outline_of_line_fixed [OF assms]
  by (auto simp: is_outline_line_def outline_of_line_def split: if_splits option.splits)

lemma outline_of_line_no_newline:
  assumes "outline_of_line line = Some l" "newline \<notin> set line"
  shows "newline \<notin> set l"
proof (cases "decorator_match line")
  case True
  then have "l = py_strip line" using assms(1) by (simp add: outline_of_line_def)
  then show ?thesis using assms(2) set_py_strip [of line] by blast
next
  case False
  then have "header_match ''class'' line = Some l \<or> header_match ''def'' line = Some l"
    using assms(1)
    by (simp add: outline_of_line_def class_match_def func_match_def split: option.splits)
  then show ?thesis using header_match_no_newline assms(2) by blast
qed

subsection \<open>The loop and the flags\<close>

lemma compressed_process_line:
  "compressed (process_line st line) =
     compressed st @ (case outline_of_line line of None \<Rightarrow> [] | Some l \<Rightarrow> [l])"
  by (simp add: process_line_def outline_of_line_def split: option.splits)

lemma compressed_foldl:
  "compressed (foldl process_line st ls) = compressed st @ List.map_filter outline_of_line ls"
proof (induction ls arbitrary: st)
  case Nil
  show ?case by simp
next
  case (Cons l ls)
  show ?case
    by (simp add: Cons.IH compressed_process_line split: option.splits)
qed

lemma compressed_lines_eq:
  "compressed_lines file_content = List.map_filter outline_of_line (py_split newline file_content)"
  by (simp add: compressed_lines_def compressed_foldl initial_state_def)


text \<open>
  Claim C5: the two flags never change what is emitted. For every input text the value
  stored by the code-compression step equals the flag-free filter that keeps the
  decorator lines and the class and function header captures.
\<close>

theorem flags_inert: "compress file_content = flag_free_outline file_content"
  by (simp add: compress_def flag_free_outline_def compressed_lines_eq)

subsection \<open>Splitting and joining\<close>

lemma py_split_not_Nil: "py_split sep s \<noteq> []"
  by (induction s) (auto split: list.splits)

lemma py_split_no_sep: "x \<in> set (py_split sep s) \<Longrightarrow> sep \<notin> set x"
proof (induction s arbitrary: x)
  case Nil
  then show ?case by simp
next
  case (Cons c cs)
  show ?case
  proof (cases "c = sep")
    case True
    then show ?thesis using Cons by auto
  next
    case False
    obtain l ls where ls: "py_split sep cs = l # ls"
      using py_split_not_Nil [of sep cs] by (cases "py_split sep cs") auto
    with False Cons.prems have "x = c # l \<or> x \<in> set ls" by simp
    then show ?thesis
    proof
      assume "x = c # l"
      moreover have "sep \<notin> set l" using Cons.IH [of l] ls by simp
      ultimately show ?thesis using False by simp
    next
      assume "x \<in> set ls"
      then show ?thesis using Cons.IH [of x] ls by simp
    qed
  qed
qed

lemma py_split_append_sep:
  "sep \<notin> set x \<Longrightarrow> py_split sep (x @ sep # rest) = x # py_split sep rest"
  by (induction x) auto

lemma py_split_plain: "sep \<notin> set x \<Longrightarrow> py_split sep x = [x]"
  by (induction x) auto

lemma py_split_join:
  "xs \<noteq> [] \<Longrightarrow> (\<forall>x\<in>set xs. sep \<notin> set x) \<Longrightarrow> py_split sep (py_join [sep] xs) = xs"
proof (induction "[sep]" xs rule: py_join.induct)
  case 1
  then show ?case by simp
next
  case (2 x)
  then show ?case by (simp add: py_split_plain)
next
  case (3 x y ys)
  then show ?case by (simp add: py_split_append_sep)
qed

lemma map_filter_fixed: "(\<forall>l\<in>set ls. f l = Some l) \<Longrightarrow> List.map_filter f ls = ls"
  by (induction ls) (auto simp: map_filter_simps)

lemma map_filter_mem:
  "l \<in> set (List.map_filter f xs) \<Longrightarrow> \<exists>x\<in>set xs. f x = Some l"
  by (auto simp: map_filter_def)

lemma compressed_lines_fixed:
  assumes "l \<in> set (compressed_lines file_content)"
  shows "outline_of_line l = Some l" and "newline \<notin> set l" and "is_outline_line l"
proof -
  from assms obtain line where line: "line \<in> set (py_split newline file_content)"
    "outline_of_line line = Some l"
    using map_filter_mem [of l outline_of_line] by (auto simp: compressed_lines_eq)
  have nl: "newline \<notin> set line" using line(1) by (rule py_split_no_sep)
  show "outline_of_line l = Some l" using line(2) by (rule outline_of_line_fixed)
  show "newline \<notin> set l" using line(2) nl by (rule outline_of_line_no_newline)
  show "is_outline_line l" using line(2) by (rule outline_of_line_kind)
qed

lemma compressed_lines_of_compress:
  "compressed_lines (compress file_content) = compressed_lines file_content"
proof (cases "compressed_lines file_content = []")
  case True
  have "outline_of_line [] = None"
    by (simp add: outline_of_line_def class_match_def func_match_def header_match_def)
  then show ?thesis by (simp add: True compress_def compressed_lines_eq [of "[]"] map_filter_simps)
next
  case False
  let ?L = "compressed_lines file_content"
  have "py_split newline (compress file_content) = ?L"
    unfolding compress_def using False compressed_lines_fixed(2) by (intro py_split_join) auto
  moreover have "List.map_filter outline_of_line ?L = ?L"
    using compressed_lines_fixed(1) by (intro map_filter_fixed) auto
  ultimately show ?thesis by (simp add: compressed_lines_eq [of "compress file_content"])
qed


text \<open>
  Claim C6: outline extraction is idempotent. Running the code-compression step on its
  own result returns that result unchanged, for every input text.
\<close>

theorem compress_idempotent: "compress (compress file_content) = compress file_content"
  by (simp add: compress_def [of "compress file_content"] compressed_lines_of_compress)
    (simp add: compress_def)


text \<open>
  Claim C7: every line appended to \<open>compressed\<close> is a decorator line, a class header or
  a function header, and so is every line of a non-empty result.
\<close>

theorem outline_only:
  "(\<forall>l\<in>set (compressed_lines file_content). is_outline_line l)
   \<and> (compress file_content \<noteq> [] \<longrightarrow>
        (\<forall>l\<in>set (py_split newline (compress file_content)). is_outline_line l))"
proof -
  have a: "\<forall>l\<in>set (compressed_lines file_content). is_outline_line l"
    using compressed_lines_fixed(3) by blast
  have "py_split newline (compress file_content) = compressed_lines file_content"
    if "compress file_content \<noteq> []"
  proof -
    from that have "compressed_lines file_content \<noteq> []" by (auto simp: compress_def)
    then show ?thesis
      unfolding compress_def using compressed_lines_fixed(2) by (intro py_split_join) auto
  qed
  with a show ?thesis by simp
qed

theorem outline_only_witness:
  "compressed_lines sample_source = [''@dec'', ''class A(B):'', ''def f(x):'']
   \<and> is_outline_line ''@dec'' \<and> is_outline_line ''class A(B):'' \<and> is_outline_line ''def f(x):''"
proof -
  have e: "compressed_lines sample_source = [''@dec'', ''class A(B):'', ''def f(x):'']"
    by code_simp
  from outline_only [of sample_source]
  have "\<forall>l\<in>set (compressed_lines sample_source). is_outline_line l" by (rule conjunct1)
  then show ?thesis unfolding e by simp
qed


section \<open>Properties of patch selection\<close>

lemma clash_sym: "clash a b = clash b a"
  by (auto simp: clash_def)

lemma clash_irrefl: "\<not> clash a a"
  by (simp add: clash_def)

lemma tuple_lt_cases:
  "tuple_lt a b = (if clash a b then Inl TypeError else Inr (fst a < fst b))"
  by (auto simp: tuple_lt_def clash_def)

lemma insert_sorted_clash:
  assumes "sorted (map fst ys)" and "\<exists>y\<in>set ys. clash x y"
  shows "insert_sorted x ys = Inl TypeError"
  using assms
proof (induction ys)
  case Nil
  then show ?case by simp
next
  case (Cons y ys)
  show ?case
  proof (cases "clash x y")
    case True
    then show ?thesis by (simp add: tuple_lt_cases)
  next
    case False
    note nc = this
    show ?thesis
    proof (cases "fst x < fst y")
      case True
      from Cons.prems(2) nc obtain z where z: "z \<in> set ys" "clash x z" by auto
      from Cons.prems(1) z(1) have "fst y \<le> fst z" by auto
      with True z(2) show ?thesis by (simp add: clash_def)
    next
      case False
      from Cons.prems(2) nc have "\<exists>z\<in>set ys. clash x z" by auto
      moreover from Cons.prems(1) have "sorted (map fst ys)" by simp
      ultimately have "insert_sorted x ys = Inl TypeError" by (rule Cons.IH [rotated])
      with nc False show ?thesis by (simp add: tuple_lt_cases)
    qed
  qed
qed

lemma insert_sorted_ok:
  assumes "sorted (map fst ys)" and "\<forall>y\<in>set ys. \<not> clash x y"
  shows "\<exists>zs. insert_sorted x ys = Inr zs \<and> set zs = insert x (set ys) \<and> sorted (map fst zs)"
  using assms
proof (induction ys)
  case Nil
  then show ?case by simp
next
  case (Cons y ys)
  from Cons.prems(2) have nc: "\<not> clash x y" by simp
  show ?case
  proof (cases "fst x < fst y")
    case True
    with nc Cons.prems(1) show ?thesis by (auto simp: tuple_lt_cases)
  next
    case False
    from Cons.prems have "sorted (map fst ys)" "\<forall>z\<in>set ys. \<not> clash x z" by simp_all
    from Cons.IH [OF this] obtain zs where zs: "insert_sorted x ys = Inr zs"
      "set zs = insert x (set ys)" "sorted (map fst zs)" by blast
    have "\<forall>z\<in>set zs. fst y \<le> fst z"
      using zs(2) False Cons.prems(1) by auto
    with zs nc False show ?thesis by (auto simp: tuple_lt_cases)
  qed
qed

lemma clashing_Cons:
  assumes "\<forall>y\<in>set acc. \<not> clash x y" and "set acc' = insert x (set acc)"
  shows "clashing acc (x # xs) = clashing acc' xs"
proof
  assume "clashing acc (x # xs)"
  then obtain a b where ab: "a \<in> set (x # xs)" "b \<in> set acc \<union> set (x # xs)" "clash a b"
    unfolding clashing_def by blast
  show "clashing acc' xs"
  proof (cases "a = x")
    case True
    with ab assms(1) clash_irrefl [of x] have "b \<in> set xs" by auto
    moreover have "clash b x" using ab(3) True clash_sym by simp
    ultimately show ?thesis unfolding clashing_def using assms(2) by blast
  next
    case False
    with ab(1) have "a \<in> set xs" by simp
    moreover have "b \<in> set acc' \<union> set xs" using ab(2) assms(2) by auto
    ultimately show ?thesis unfolding clashing_def using ab(3) by blast
  qed
next
  assume "clashing acc' xs"
  then obtain a b where ab: "a \<in> set xs" "b \<in> set acc' \<union> set xs" "clash a b"
    unfolding clashing_def by blast
  then have "a \<in> set (x # xs)" "b \<in> set acc \<union> set (x # xs)" using assms(2) by auto
  with ab(3) show "clashing acc (x # xs)" unfolding clashing_def by blast
qed

lemma sorted_from_spec:
  assumes "sorted (map fst acc)"
  shows "(clashing acc xs \<longrightarrow> sorted_from acc xs = Inl TypeError)
         \<and> (\<not> clashing acc xs \<longrightarrow>
              (\<exists>zs. sorted_from acc xs = Inr zs \<and> set zs = set acc \<union> set xs
                    \<and> sorted (map fst zs)))"
  using assms
proof (induction xs arbitrary: acc)
  case Nil
  then show ?case by (simp add: clashing_def)
next
  case (Cons x xs)
  show ?case
  proof (cases "\<exists>y\<in>set acc. clash x y")
    case True
    then have "clashing acc (x # xs)" unfolding clashing_def by auto
    moreover have "insert_sorted x acc = Inl TypeError"
      using Cons.prems True by (rule insert_sorted_clash)
    ultimately show ?thesis by simp
  next
    case False
    then have nc: "\<forall>y\<in>set acc. \<not> clash x y" by simp
    from insert_sorted_ok [OF Cons.prems nc] obtain acc' where acc':
      "insert_sorted x acc = Inr acc'" "set acc' = insert x (set acc)" "sorted (map fst acc')"
      by blast
    have eq: "clashing acc (x # xs) = clashing acc' xs" using nc acc'(2) by (rule clashing_Cons)
    have un: "set acc' \<union> set xs = set acc \<union> set (x # xs)" using acc'(2) by auto
    show ?thesis using Cons.IH [OF acc'(3)] unfolding eq un by (simp add: acc'(1))
  qed
qed

lemma py_sorted_clash: "clashing [] xs \<Longrightarrow> py_sorted xs = Inl TypeError"
  using sorted_from_spec [of "[]" xs] by (simp add: py_sorted_def)

lemma py_sorted_ok:
  "\<not> clashing [] xs \<Longrightarrow>
   \<exists>zs. py_sorted xs = Inr zs \<and> set zs = set xs \<and> sorted (map fst zs)"
  using sorted_from_spec [of "[]" xs] by (simp add: py_sorted_def)

lemma clashing_candidates: "clashing [] (map candidate results) = tied results"
  by (auto simp: clashing_def tied_def clash_def candidate_def)

lemma select_best_solution_candidates:
  "select_best_solution results =
     (if results = [] then Inr None
      else (case py_sorted (map candidate results) of
              Inl e \<Rightarrow> Inl e
            | Inr [] \<Rightarrow> Inl IndexError
            | Inr (best # rest) \<Rightarrow> Inr (Some (snd best))))"
  by (simp add: select_best_solution_def candidate_def [abs_def])

lemma select_best_solution_tied:
  assumes "tied results"
  shows "select_best_solution results = Inl TypeError"
proof -
  from assms have ne: "results \<noteq> []" by (auto simp: tied_def)
  have "py_sorted (map candidate results) = Inl TypeError"
    using assms by (intro py_sorted_clash) (simp add: clashing_candidates)
  then show ?thesis using ne by (simp add: select_best_solution_candidates)
qed

lemma select_best_solution_largest:
  assumes "results \<noteq> []" "\<not> tied results"
  shows "\<exists>best. select_best_solution results = Inr (Some best) \<and> best \<in> set results
                \<and> (\<forall>r\<in>set results. patch_size r \<le> patch_size best)"
proof -
  let ?c = "map candidate results"
  from assms(2) have "\<not> clashing [] ?c" by (simp add: clashing_candidates)
  from py_sorted_ok [OF this] obtain zs where zs: "py_sorted ?c = Inr zs"
    "set zs = set ?c" "sorted (map fst zs)" by blast
  from assms(1) zs(2) obtain best rest where br: "zs = best # rest" by (cases zs) auto
  have "best \<in> set ?c" using zs(2) br by auto
  then obtain r where r: "r \<in> set results" "best = candidate r" by auto
  have "\<forall>z\<in>set zs. fst best \<le> fst z" using zs(3) br by auto
  then have "\<forall>r'\<in>set results. fst best \<le> fst (candidate r')" using zs(2) by auto
  then have le: "\<forall>r'\<in>set results. patch_size r' \<le> patch_size r"
    by (auto simp: r(2) candidate_def)
  have "select_best_solution results = Inr (Some r)"
    using assms(1) by (simp add: select_best_solution_candidates zs(1) br r(2) candidate_def)
  with r(1) le show ?thesis by blast
qed

text \<open>
  Claim C1 says that the result with the fewest patch lines is returned, as the
  docstring does (\<open>have the smallest patch\<close>). The key is the negated size and the
  sort is ascending, so the first tuple is the one with the most lines: for three
  results of 40, 12 and 25 lines the function returns the one with 40.
\<close>

theorem select_best_solution_returns_largest:
  "map patch_size [result_with_lines 3 40, result_with_lines 3 12, result_with_lines 3 25]
     = [40, 12, 25]
   \<and> select_best_solution
         [result_with_lines 3 40, result_with_lines 3 12, result_with_lines 3 25]
       = Inr (Some (result_with_lines 3 40))"
  by code_simp


text \<open>
  Claim C10, as stated, fails: two results with equal line counts that are equal
  dictionaries give equal tuples, nothing is compared further, and a winner is returned.
\<close>

theorem select_best_solution_equal_results:
  "patch_size (result_with_lines 3 12) = 12
   \<and> select_best_solution [result_with_lines 3 12, result_with_lines 3 12]
       = Inr (Some (result_with_lines 3 12))"
  by code_simp


text \<open>
  Claim C10, amended: \<open>select_best_solution\<close> raises \<open>TypeError\<close> whenever the list
  holds two results with equal patch line counts that differ as dictionaries, and
  returns without an exception for every other list.
\<close>

theorem select_best_solution_raises:
  "(tied results \<longrightarrow> select_best_solution results = Inl TypeError)
   \<and> (\<not> tied results \<longrightarrow> (\<exists>winner. select_best_solution results = Inr winner))"
proof (cases "results = []")
  case True
  then show ?thesis by (simp add: tied_def select_best_solution_def)
next
  case False
  then show ?thesis
    using select_best_solution_tied [of results] select_best_solution_largest [of results]
    by blast
qed

theorem select_best_solution_raises_witness:
  "patch_size (result_with_lines 3 12) = patch_size (result_with_lines 2 12)
   \<and> result_with_lines 3 12 \<noteq> result_with_lines 2 12
   \<and> select_best_solution [result_with_lines 3 12, result_with_lines 2 12] = Inl TypeError"
proof -
  have t: "tied [result_with_lines 3 12, result_with_lines 2 12]" by code_simp
  have "patch_size (result_with_lines 3 12) = patch_size (result_with_lines 2 12)" by code_simp
  moreover have "result_with_lines 3 12 \<noteq> result_with_lines 2 12"
    by (simp add: result_with_lines_def)
  moreover have "select_best_solution [result_with_lines 3 12, result_with_lines 2 12] = Inl TypeError"
    using select_best_solution_raises [of "[result_with_lines 3 12, result_with_lines 2 12]"] t
    by blast
  ultimately show ?thesis by blast
qed

section \<open>Properties of the repository tree\<close>

text \<open>With \<open>base_commit_sha\<close> bound, the tree of the small repository is rendered.\<close>

lemma build_tree_bound:
  "build_tree [''base_commit_sha'' \<mapsto> PyStr ''abc''] sample_repo [] 0 =
     entry_glyph @ ''docs/'' @ [newline]
     @ entry_glyph @ ''pkg/'' @ [newline]
     @ indent_glyph @ entry_glyph @ ''a.py'' @ [newline]
     @ indent_glyph @ entry_glyph @ ''b.py'' @ [newline]
     @ entry_glyph @ ''setup.py'' @ [newline]"
  by code_simp

lemma scope_unbound:
  "file_level_scope ro rn idesc tp tok n ''base_commit_sha'' = None"
  by (simp add: file_level_scope_def module_globals_def)

text \<open>
  Claim C9: in \<open>file_level_localization\<close> no scope binds \<open>base_commit_sha\<close>, so
  \<open>build_tree\<close> returns the empty string for every repository, path and depth, and
  the prompt of stage 1 is the template with nothing after \<open>Repository Structure:\<close>.
\<close>

theorem prompt_tree_empty:
  "build_tree (file_level_scope ro rn idesc tp tok n) repo path indent = []
   \<and> file_level_localization get_repo ro rn idesc tp tok n =
       (case get_repo (ro @ ''/'' @ rn) of
          Inl message \<Rightarrow> Inl (Exception (''Error accessing GitHub repository: '' @ message))
        | Inr repo \<Rightarrow> Inr (file_level_prompt n [] idesc tp))"
  by (simp add: build_tree.simps lookup_name_def scope_unbound file_level_localization_def split: sum.splits)


section \<open>Properties of line-numbered excerpts\<close>

lemma digit_char_not_newline:
  assumes "d < 10"
  shows "digit_char d \<noteq> newline"
proof
  assume eq: "digit_char d = newline"
  have a: "of_char (digit_char d) = (48 + d :: nat)"
    using assms by (simp add: digit_char_def)
  have b: "of_char newline = (10 :: nat)" by (simp add: newline_def)
  have "(of_char (digit_char d) :: nat) = of_char newline" by (simp add: eq)
  then have "48 + d = (10 :: nat)" unfolding a b .
  then show False by simp
qed

lemma str_nat_no_newline: "newline \<notin> set (str_nat n)"
proof (induction n rule: str_nat.induct)
  case (1 n)
  show ?case
  proof (cases "n < 10")
    case True
    then show ?thesis using digit_char_not_newline [of n] by (simp add: str_nat.simps [of n])
  next
    case False
    have "n mod 10 < 10" by simp
    then have "digit_char (n mod 10) \<noteq> newline" by (rule digit_char_not_newline)
    with False 1 show ?thesis by (simp add: str_nat.simps [of n])
  qed
qed


lemma number_lines_no_newline: "newline \<notin> set (number_lines file_content)"
proof -
  have "newline \<notin> set (str_nat (i + 1) @ '': '' @ line)"
    if "line \<in> set (py_split newline file_content)" for i line
    using that str_nat_no_newline [of "i + 1"] py_split_no_sep [of line newline file_content]
    by (simp add: newline_def)
  then show ?thesis
    by (auto simp: number_lines_def enumerate_eq_zip dest!: set_zip_rightD)
qed


lemma get_code_with_lines_no_newline:
  "newline \<notin> set (get_code_with_lines fetch base_commit_sha path)"
  by (simp add: get_code_with_lines_def number_lines_no_newline
      split: sum.splits fetched.splits option.splits)

text \<open>
  Claim C2 says that removing the inserted \<open>N: \<close> prefixes from the excerpt gives the
  source text back. The code splits the text at the newlines and joins the numbered
  lines with the empty string, so no excerpt contains a newline at all: the text
  \<open>a\nb\<close> becomes \<open>1: a2: b\<close>, and without the prefixes \<open>ab\<close>. The sibling
  outline extraction joins its lines with a newline.
\<close>

theorem get_code_with_lines_drops_newlines:
  "newline \<notin> set (get_code_with_lines fetch base_commit_sha path)
   \<and> get_code_with_lines
         (\<lambda>p r. Inr (OneFile \<lparr>content_type = ''file'', content_name = ''m.py'',
                               content_path = ''m.py'',
                               decoded_content = Some (''a'' @ [newline] @ ''b'')\<rparr>))
         ''abc'' ''m.py''
       = ''1: a2: b''"
proof -
  have "number_lines (''a'' @ [newline] @ ''b'') = ''1: a2: b''" by code_simp
  then show ?thesis
    using get_code_with_lines_no_newline [of fetch base_commit_sha path]
    by (simp add: get_code_with_lines_def)
qed

section \<open>Properties of the repository coordinates\<close>

lemma search_diff_Cons:
  "search_diff (c # cs) = (if header_here (c # cs) then Some (group1 (c # cs)) else search_diff cs)"
  by (simp add: search_diff.simps(2) header_here_def group1_def Let_def del: take_Suc_Cons drop_Suc_Cons)

lemma not_header_here_Nil: "\<not> header_here []"
  by (simp add: header_here_def)

lemma search_diff_None:
  "search_diff s = None \<longleftrightarrow> (\<forall>pre suf. s = pre @ suf \<longrightarrow> \<not> header_here suf)"
proof (induction s)
  case Nil
  show ?case by (simp add: not_header_here_Nil)
next
  case (Cons c cs)
  show ?case
  proof (cases "header_here (c # cs)")
    case True
    then have "search_diff (c # cs) \<noteq> None" by (simp add: search_diff_Cons)
    moreover have "c # cs = [] @ (c # cs)" by simp
    ultimately show ?thesis using True by blast
  next
    case False
    have "(\<forall>pre suf. c # cs = pre @ suf \<longrightarrow> \<not> header_here suf)
          \<longleftrightarrow> (\<forall>pre suf. cs = pre @ suf \<longrightarrow> \<not> header_here suf)"
    proof
      assume a: "\<forall>pre suf. c # cs = pre @ suf \<longrightarrow> \<not> header_here suf"
      show "\<forall>pre suf. cs = pre @ suf \<longrightarrow> \<not> header_here suf"
      proof (intro allI impI)
        fix pre suf assume "cs = pre @ suf"
        then have "c # cs = (c # pre) @ suf" by simp
        with a show "\<not> header_here suf" by blast
      qed
    next
      assume a: "\<forall>pre suf. cs = pre @ suf \<longrightarrow> \<not> header_here suf"
      show "\<forall>pre suf. c # cs = pre @ suf \<longrightarrow> \<not> header_here suf"
      proof (intro allI impI)
        fix pre suf assume e: "c # cs = pre @ suf"
        show "\<not> header_here suf"
        proof (cases pre)
          case Nil
          with e False show ?thesis by simp
        next
          case (Cons p pre')
          with e have "cs = pre' @ suf" by simp
          with a show ?thesis by blast
        qed
      qed
    qed
    with False Cons.IH show ?thesis by (simp add: search_diff_Cons)
  qed
qed

lemma search_diff_Some:
  "search_diff s = Some p \<Longrightarrow>
   \<exists>pre suf. s = pre @ suf \<and> header_here suf \<and> p = group1 suf
     \<and> (\<forall>pre' suf'. s = pre' @ suf' \<and> header_here suf' \<longrightarrow> length pre \<le> length pre')"
proof (induction s)
  case Nil
  then show ?case by simp
next
  case (Cons c cs)
  show ?case
  proof (cases "header_here (c # cs)")
    case True
    with Cons.prems have "p = group1 (c # cs)" by (simp add: search_diff_Cons)
    with True have "c # cs = [] @ (c # cs) \<and> header_here (c # cs) \<and> p = group1 (c # cs)
      \<and> (\<forall>pre' suf'. c # cs = pre' @ suf' \<and> header_here suf' \<longrightarrow> length ([] :: string) \<le> length pre')"
      by simp
    then show ?thesis by blast
  next
    case False
    with Cons.prems have "search_diff cs = Some p" by (simp add: search_diff_Cons)
    from Cons.IH [OF this] obtain pre suf where ps: "cs = pre @ suf" "header_here suf"
      "p = group1 suf"
      "\<forall>pre' suf'. cs = pre' @ suf' \<and> header_here suf' \<longrightarrow> length pre \<le> length pre'"
      by blast
    have min: "length (c # pre) \<le> length pre'" if e: "c # cs = pre' @ suf'" and h: "header_here suf'"
      for pre' suf'
    proof (cases pre')
      case Nil
      with e h False show ?thesis by simp
    next
      case (Cons q pre'')
      with e have "cs = pre'' @ suf'" by simp
      with ps(4) h have "length pre \<le> length pre''" by blast
      with Cons show ?thesis by simp
    qed
    have "c # cs = (c # pre) @ suf" using ps(1) by simp
    with ps(2,3) min show ?thesis by blast
  qed
qed

lemma length_diff_header: "length diff_header = 13"
  by (simp add: diff_header_def)

lemma takeWhile_all_then_stop:
  "(\<forall>x\<in>set xs. P x) \<Longrightarrow> ys = [] \<or> \<not> P (hd ys) \<Longrightarrow> takeWhile P (xs @ ys) = xs"
  by (cases ys) (simp_all add: takeWhile_stop)

lemma diff_line_header:
  assumes "diff_header_at diff_text pre path post"
  shows "header_here (diff_header @ path @ post)" and "group1 (diff_header @ path @ post) = path"
proof -
  from assms have p: "path \<noteq> []" "\<forall>c\<in>set path. \<not> is_space c" "post = [] \<or> is_space (hd post)"
    by (simp_all add: diff_header_at_def)
  have tw: "takeWhile (\<lambda>x. \<not> is_space x) (path @ post) = path"
    using p(2,3) by (intro takeWhile_all_then_stop) auto
  show "header_here (diff_header @ path @ post)"
    using p(1) by (simp add: header_here_def tw)
  show "group1 (diff_header @ path @ post) = path"
    by (simp add: group1_def tw)
qed

lemma header_diff_line:
  assumes "header_here suf"
  shows "diff_header_at (pre @ suf) pre (group1 suf)
           (dropWhile (\<lambda>x. \<not> is_space x) (drop (length diff_header) suf))"
proof -
  let ?rest = "drop (length diff_header) suf"
  let ?post = "dropWhile (\<lambda>x. \<not> is_space x) ?rest"
  from assms have h: "take (length diff_header) suf = diff_header" "group1 suf \<noteq> []"
    by (simp_all add: header_here_def group1_def)
  have "suf = take (length diff_header) suf @ ?rest" by simp
  then have suf: "suf = diff_header @ ?rest" using h(1) by simp
  have rest: "?rest = group1 suf @ ?post" by (simp add: group1_def)
  have e: "pre @ suf = pre @ diff_header @ group1 suf @ ?post"
    using suf rest by (metis)
  have ns: "\<forall>c\<in>set (group1 suf). \<not> is_space c"
    by (auto simp: group1_def dest: set_takeWhileD)
  have st: "?post = [] \<or> is_space (hd ?post)"
    using hd_dropWhile [of "\<lambda>x. \<not> is_space x" ?rest] by blast
  show ?thesis
    unfolding diff_header_at_def using e h(2) ns st by blast
qed

lemma py_split_first: "\<exists>rest. py_split sep s = takeWhile (\<lambda>c. c \<noteq> sep) s # rest"
proof (induction s)
  case Nil
  show ?case by simp
next
  case (Cons c cs)
  then obtain rest where "py_split sep cs = takeWhile (\<lambda>c. c \<noteq> sep) cs # rest" by blast
  then show ?case by simp
qed

lemma no_line_search:
  assumes "\<not> has_diff_header diff_text"
  shows "search_diff diff_text = None"
proof -
  have "\<not> header_here suf" if "diff_text = pre @ suf" for pre suf
  proof
    assume "header_here suf"
    from header_diff_line [OF this, of pre] that assms show False
      unfolding has_diff_header_def by blast
  qed
  then show ?thesis by (simp add: search_diff_None)
qed

lemma line_search:
  assumes "has_diff_header diff_text"
  shows "\<exists>path. search_diff diff_text = Some path \<and> first_diff_path diff_text path"
proof -
  from assms obtain pre0 path0 post0 where d0: "diff_header_at diff_text pre0 path0 post0"
    unfolding has_diff_header_def by blast
  then have "diff_text = pre0 @ (diff_header @ path0 @ post0)" by (simp add: diff_header_at_def)
  moreover have "header_here (diff_header @ path0 @ post0)" using d0 by (rule diff_line_header)
  ultimately have "search_diff diff_text \<noteq> None" unfolding search_diff_None by blast
  then obtain p where p: "search_diff diff_text = Some p" by blast
  from search_diff_Some [OF p] obtain pre suf where ps: "diff_text = pre @ suf" "header_here suf"
    "p = group1 suf"
    "\<forall>pre' suf'. diff_text = pre' @ suf' \<and> header_here suf' \<longrightarrow> length pre \<le> length pre'"
    by blast
  let ?post = "dropWhile (\<lambda>x. \<not> is_space x) (drop (length diff_header) suf)"
  have here: "diff_header_at diff_text pre p ?post"
    using header_diff_line [OF ps(2), of pre] by (simp add: ps(1,3))
  have min: "length pre \<le> length pre'" if d: "diff_header_at diff_text pre' path' post'"
    for pre' path' post'
  proof -
    from d have "diff_text = pre' @ (diff_header @ path' @ post')" by (simp add: diff_header_at_def)
    moreover have "header_here (diff_header @ path' @ post')" using d by (rule diff_line_header)
    ultimately show ?thesis using ps(4) by blast
  qed
  have "first_diff_path diff_text p"
    unfolding first_diff_path_def using here min by blast
  with p show ?thesis by blast
qed


lemma first_diff_path_unique:
  assumes "first_diff_path diff_text p" "first_diff_path diff_text q"
  shows "p = q"
proof -
  from assms(1) obtain pre post where a: "diff_header_at diff_text pre p post"
    "\<forall>pre' path' post'. diff_header_at diff_text pre' path' post' \<longrightarrow> length pre \<le> length pre'"
    unfolding first_diff_path_def by blast
  from assms(2) obtain pre2 post2 where b: "diff_header_at diff_text pre2 q post2"
    "\<forall>pre' path' post'. diff_header_at diff_text pre' path' post' \<longrightarrow> length pre2 \<le> length pre'"
    unfolding first_diff_path_def by blast
  have len: "length pre = length pre2" using a b by (meson le_antisym)
  have ta: "diff_text = pre @ (diff_header @ p @ post)" using a(1) by (simp add: diff_header_at_def)
  have tb: "diff_text = pre2 @ (diff_header @ q @ post2)" using b(1) by (simp add: diff_header_at_def)
  from ta tb len have "diff_header @ p @ post = diff_header @ q @ post2" by (metis append_eq_append_conv)
  then have "group1 (diff_header @ p @ post) = group1 (diff_header @ q @ post2)" by simp
  then show ?thesis using diff_line_header(2) [OF a(1)] diff_line_header(2) [OF b(1)] by simp
qed


text \<open>
  Claim C3, as stated, fails: the search is not tied to the start of a line and the
  captured path ends at the first whitespace. The one-line text \<open>xdiff --git a/q\<close>
  has no diff header line, and \<open>derive_repo_info\<close> returns \<open>q\<close> in all three
  fields instead of raising; for the header line of \<open>docs/my file.md\<close> the returned
  \<open>file_path\<close> is \<open>docs/my\<close>, not the whole path.
\<close>

theorem derive_repo_info_not_line_anchored:
  "\<not> has_diff_line ''xdiff --git a/q''
   \<and> derive_repo_info [''model_patch'' \<mapsto> ''xdiff --git a/q'']
       = Inr \<lparr>repo_owner = ''q'', repo_name = ''q'', file_path = ''q''\<rparr>
   \<and> has_diff_line ''diff --git a/docs/my file.md b/docs/my file.md''
   \<and> derive_repo_info [''model_patch'' \<mapsto> ''diff --git a/docs/my file.md b/docs/my file.md'']
       = Inr \<lparr>repo_owner = ''docs'', repo_name = ''docs'', file_path = ''docs/my''\<rparr>"
  by code_simp

text \<open>
  Claim C3, amended: when \<open>model_patch\<close> is absent or empty, \<open>derive_repo_info\<close>
  raises \<open>ValueError\<close>; when its text holds nowhere \<open>diff --git a/\<close> followed by a
  character that is not whitespace, it raises \<open>ValueError\<close>; in every other case it
  returns, for the leftmost such occurrence (at the start of a line or not), the run of
  non-whitespace characters after it as \<open>file_path\<close> and the first segment of that
  run as both \<open>repo_owner\<close> and \<open>repo_name\<close>.
\<close>

theorem derive_repo_info_spec:
  "(case model_info ''model_patch'' of
      None \<Rightarrow>
        derive_repo_info model_info = Inl (ValueError ''model_patch is required in model_info'')
    | Some diff_text \<Rightarrow>
        if diff_text = []
        then derive_repo_info model_info
               = Inl (ValueError ''model_patch is required in model_info'')
        else if \<not> has_diff_header diff_text
        then derive_repo_info model_info
               = Inl (ValueError ''Could not extract file path from patch'')
        else (\<exists>path. first_diff_path diff_text path
                \<and> derive_repo_info model_info
                    = Inr \<lparr>repo_owner = first_segment path, repo_name = first_segment path,
                           file_path = path\<rparr>))"
proof (cases "model_info ''model_patch''")
  case None
  then show ?thesis by (simp add: derive_repo_info_def)
next
  case (Some diff_text)
  show ?thesis
  proof (cases "diff_text = []")
    case True
    with Some show ?thesis by (simp add: derive_repo_info_def)
  next
    case False
    note ne = this
    show ?thesis
    proof (cases "has_diff_header diff_text")
      case False
      then have "search_diff diff_text = None" by (rule no_line_search)
      with Some ne False show ?thesis by (simp add: derive_repo_info_def)
    next
      case True
      from line_search [OF True] obtain path where p: "search_diff diff_text = Some path"
        "first_diff_path diff_text path" by blast
      obtain rest where sp: "py_split (CHR ''/'') path = first_segment path # rest"
        using py_split_first [of "CHR ''/''" path] unfolding first_segment_def by blast
      have "derive_repo_info model_info
              = Inr \<lparr>repo_owner = first_segment path, repo_name = first_segment path,
                     file_path = path\<rparr>"
        using Some ne by (simp add: derive_repo_info_def p(1) sp)
      with p(2) Some ne True show ?thesis by auto
    qed
  qed
qed

theorem derive_repo_info_spec_witness:
  "has_diff_header sample_patch
   \<and> (\<exists>path. first_diff_path sample_patch path
          \<and> derive_repo_info [''model_patch'' \<mapsto> sample_patch]
              = Inr \<lparr>repo_owner = first_segment path, repo_name = first_segment path,
                     file_path = path\<rparr>)
   \<and> derive_repo_info [''model_patch'' \<mapsto> sample_patch]
       = Inr \<lparr>repo_owner = ''foo'', repo_name = ''foo'', file_path = ''foo/bar.py''\<rparr>"
proof -
  have "diff_header_at sample_patch [] ''foo/bar.py'' ('' b/foo/bar.py'' @ [newline] @ ''--- a/foo/bar.py'')"
    by (simp add: diff_header_at_def sample_patch_def diff_header_def is_space_def)
  then have h: "has_diff_header sample_patch" unfolding has_diff_header_def by blast
  have ne: "sample_patch \<noteq> []" by (simp add: sample_patch_def)
  have ex: "\<exists>path. first_diff_path sample_patch path
          \<and> derive_repo_info [''model_patch'' \<mapsto> sample_patch]
              = Inr \<lparr>repo_owner = first_segment path, repo_name = first_segment path,
                     file_path = path\<rparr>"
    using derive_repo_info_spec [of "[''model_patch'' \<mapsto> sample_patch]"] h ne by simp
  have ev: "derive_repo_info [''model_patch'' \<mapsto> sample_patch]
       = Inr \<lparr>repo_owner = ''foo'', repo_name = ''foo'', file_path = ''foo/bar.py''\<rparr>"
    by code_simp
  from h ex ev show ?thesis by blast
qed


section \<open>Properties of the success rate\<close>

subsection \<open>The rounding\<close>

lemma bit_length_pos: "0 < n \<Longrightarrow> 0 < bit_length n"
  by (simp add: bit_length.simps [of n])

lemma bit_length_bounds:
  "0 < n \<Longrightarrow> 2 ^ (bit_length n - 1) \<le> n \<and> n < 2 ^ bit_length n"
proof (induction n rule: bit_length.induct)
  case (1 n)
  show ?case
  proof (cases "n = 1")
    case True
    have "bit_length (0 :: int) = 0" by (simp add: bit_length.simps [of 0])
    then have "bit_length (1 :: int) = 1" by (simp add: bit_length.simps [of 1])
    with True show ?thesis by simp
  next
    case False
    with "1.prems" have h: "0 < n div 2" by linarith
    have bl: "bit_length n = Suc (bit_length (n div 2))"
      using "1.prems" by (simp add: bit_length.simps [of n])
    from "1.IH" "1.prems" h have ih: "2 ^ (bit_length (n div 2) - 1) \<le> n div 2"
      "n div 2 < 2 ^ bit_length (n div 2)" by auto
    from bit_length_pos [OF h] obtain k where k: "bit_length (n div 2) = Suc k"
      by (cases "bit_length (n div 2)") auto
    have "2 * (n div 2) \<le> n" "n < 2 * (n div 2) + 2" by linarith+
    with ih show ?thesis by (simp add: bl k)
  qed
qed

lemma floor_log2_bounds:
  assumes "0 < x"
  shows "2 powi floor_log2 x \<le> x \<and> x < 2 powi (floor_log2 x + 1)"
proof -
  obtain a b where q: "quotient_of x = (a, b)" by (cases "quotient_of x")
  have b0: "0 < b" using q by (rule quotient_of_denom_pos)
  have x: "x = of_int a / of_int b" using q by (rule quotient_of_div)
  have a0: "0 < a" using assms b0 by (simp add: x zero_less_divide_iff)
  define p where "p = bit_length a"
  define r where "r = bit_length b"
  from bit_length_bounds [OF a0] have pa: "2 ^ (p - 1) \<le> a" "a < 2 ^ p" by (simp_all add: p_def)
  from bit_length_bounds [OF b0] have rb: "2 ^ (r - 1) \<le> b" "b < 2 ^ r" by (simp_all add: r_def)
  have p1: "1 \<le> p" using bit_length_pos [OF a0] by (simp add: p_def)
  have r1: "1 \<le> r" using bit_length_pos [OF b0] by (simp add: r_def)
  have ra: "(2::rat) ^ (p - 1) \<le> of_int a" "(of_int a :: rat) < 2 ^ p"
    using pa by (metis of_int_le_iff of_int_numeral of_int_power, metis of_int_less_iff of_int_numeral of_int_power)
  have rr: "(2::rat) ^ (r - 1) \<le> of_int b" "(of_int b :: rat) < 2 ^ r"
    using rb by (metis of_int_le_iff of_int_numeral of_int_power, metis of_int_less_iff of_int_numeral of_int_power)
  define e where "e = int p - int r"
  have up: "x < 2 powi (e + 1)"
  proof -
    have "of_int a / of_int b < (2::rat) ^ p / 2 ^ (r - 1)"
      using ra(2) rr(1) a0 by (intro frac_less) simp_all
    moreover have "(2::rat) powi (e + 1) = 2 ^ p / 2 ^ (r - 1)"
    proof -
      have "e + 1 = int p - int (r - 1)" using r1 by (simp add: e_def)
      then show ?thesis by (simp add: power_int_diff)
    qed
    ultimately show ?thesis by (simp add: x)
  qed
  have lo: "2 powi (e - 1) \<le> x"
  proof -
    have "(2::rat) ^ (p - 1) / 2 ^ r \<le> of_int a / of_int b"
      using ra(1) rr(2) b0 a0 by (intro frac_le) simp_all
    moreover have "(2::rat) powi (e - 1) = 2 ^ (p - 1) / 2 ^ r"
    proof -
      have "e - 1 = int (p - 1) - int r" using p1 by (simp add: e_def)
      then show ?thesis by (simp add: power_int_diff)
    qed
    ultimately show ?thesis by (simp add: x)
  qed
  have fl: "floor_log2 x = (if 2 powi e \<le> x then e else e - 1)"
    by (simp add: floor_log2_def q e_def p_def r_def)
  show ?thesis
  proof (cases "2 powi e \<le> x")
    case True
    with up fl show ?thesis by simp
  next
    case False
    with lo fl show ?thesis by simp
  qed
qed

lemma round_to_double_known:
  "round_to_double (1 / 10) = 3602879701896397 / 36028797018963968
   \<and> round_to_double (1 / 3) = 6004799503160661 / 18014398509481984
   \<and> round_to_double 100 = 100
   \<and> round_to_double 9007199254740993 = 9007199254740992
   \<and> round_to_double 9007199254740995 = 9007199254740996"
  by code_simp

subsection \<open>The aggregation\<close>





end
